theory Spec2Isabelle
  imports Main
begin

unbundle bit_operations_syntax

section \<open>JavaScript numbers and the operators the grid code uses\<close>

text \<open>
  The source is TypeScript (\<^verbatim>\<open>src/app/page.tsx\<close>). Its \<^verbatim>\<open>number\<close> values are
  modelled as \<open>int\<close>: the variable count and the minterm indexes reach the grid through
  \<^verbatim>\<open>parseInt\<close>, the loop counters count up from zero, and the spec's data model takes
  all of them as integers. The bitwise operators of JavaScript first convert their
  operands to signed 32-bit integers and return a signed 32-bit integer; a shift uses
  the low five bits of its count. That conversion is written out here, because
  \<^verbatim>\<open>1 << bits\<close> decides the length of a Gray sequence.
\<close>

definition toInt32 :: "int \<Rightarrow> int" where
  "toInt32 x = signed_take_bit 31 x"

definition shiftCount :: "int \<Rightarrow> nat" where
  "shiftCount b = nat (b mod 32)"

text \<open>\<^verbatim>\<open>a << b\<close>\<close>

definition js_shl :: "int \<Rightarrow> int \<Rightarrow> int" where
  "js_shl a b = toInt32 (push_bit (shiftCount b) (toInt32 a))"

text \<open>\<^verbatim>\<open>a >> b\<close> (sign-propagating)\<close>

definition js_sar :: "int \<Rightarrow> int \<Rightarrow> int" where
  "js_sar a b = drop_bit (shiftCount b) (toInt32 a)"

text \<open>\<^verbatim>\<open>a ^ b\<close>\<close>

definition js_xor :: "int \<Rightarrow> int \<Rightarrow> int" where
  "js_xor a b = toInt32 a XOR toInt32 b"

text \<open>\<^verbatim>\<open>a | b\<close>\<close>

definition js_or :: "int \<Rightarrow> int \<Rightarrow> int" where
  "js_or a b = toInt32 a OR toInt32 b"

text \<open>\<^verbatim>\<open>a % b\<close>: the remainder takes the sign of the dividend (\<open>b \<noteq> 0\<close>).\<close>

definition js_rem :: "int \<Rightarrow> int \<Rightarrow> int" where
  "js_rem a b = sgn a * (\<bar>a\<bar> mod \<bar>b\<bar>)"

section \<open>Array and string helpers of the JavaScript library\<close>

text \<open>\<^verbatim>\<open>xs.includes(x)\<close> on numbers.\<close>

definition includes_js :: "'a list \<Rightarrow> 'a \<Rightarrow> bool" where
  "includes_js xs x = (x \<in> set xs)"

text \<open>\<^verbatim>\<open>xs.indexOf(x)\<close>: the first position holding \<open>x\<close>, or \<open>-1\<close>.\<close>

fun indexOf_from :: "'a list \<Rightarrow> 'a \<Rightarrow> int \<Rightarrow> int" where
  "indexOf_from [] x i = - 1"
| "indexOf_from (y # ys) x i = (if y = x then i else indexOf_from ys x (i + 1))"

definition indexOf :: "'a list \<Rightarrow> 'a \<Rightarrow> int" where
  "indexOf xs x = indexOf_from xs x 0"

text \<open>\<^verbatim>\<open>xs[i]\<close>: \<open>None\<close> stands for \<^verbatim>\<open>undefined\<close>, the result of a read out of range.\<close>

definition arr_get :: "'a list \<Rightarrow> int \<Rightarrow> 'a option" where
  "arr_get xs i = (if 0 \<le> i \<and> i < int (length xs) then Some (xs ! nat i) else None)"

text \<open>
  \<^verbatim>\<open>xs.slice(start, end)\<close> and \<^verbatim>\<open>xs.slice(start)\<close>: a negative bound counts from the
  end of the array, and both bounds are clamped to the array.
\<close>

definition relIndex :: "int \<Rightarrow> nat \<Rightarrow> nat" where
  "relIndex i len = (if i < 0 then nat (max (int len + i) 0) else min (nat i) len)"

definition slice :: "'a list \<Rightarrow> int \<Rightarrow> int \<Rightarrow> 'a list" where
  "slice xs start fin =
     (let k = relIndex start (length xs); final = relIndex fin (length xs)
      in take (final - k) (drop k xs))"

definition slice_from :: "'a list \<Rightarrow> int \<Rightarrow> 'a list" where
  "slice_from xs start = drop (relIndex start (length xs)) xs"

text \<open>
  \<^verbatim>\<open>n.toString(2)\<close> on an integer: the binary digits, most significant first, with no
  leading zero (\<^verbatim>\<open>"0"\<close> for zero) and a minus sign before the digits of a negative
  number.
\<close>

definition binDigit :: "nat \<Rightarrow> char" where
  "binDigit d = (if d = 0 then CHR ''0'' else CHR ''1'')"

function toBinary :: "nat \<Rightarrow> string" where
  "toBinary n = (if n < 2 then [binDigit n] else toBinary (n div 2) @ [binDigit (n mod 2)])"
  by pat_completeness auto
termination
  by (relation "measure (\<lambda>n. n)") auto

declare toBinary.simps [simp del]

definition toString2 :: "int \<Rightarrow> string" where
  "toString2 n = (if n < 0 then CHR ''-'' # toBinary (nat (- n)) else toBinary (nat n))"

text \<open>\<^verbatim>\<open>s.padStart(width, c)\<close> with a one-character filler.\<close>

definition padStart :: "string \<Rightarrow> int \<Rightarrow> char \<Rightarrow> string" where
  "padStart s width c =
     (if width \<le> int (length s) then s else replicate (nat width - length s) c @ s)"

section \<open>The functions of the grid\<close>

text \<open>
  \<^verbatim>\<open>graySequence\<close>: the \<^verbatim>\<open>for\<close> loop is the recursion \<open>graySequence_loop\<close> on the
  counter \<open>i\<close>, the bound \<open>len\<close> and the array \<open>out\<close> built so far.
\<close>

function graySequence_loop :: "int \<Rightarrow> int \<Rightarrow> int list \<Rightarrow> int list" where
  "graySequence_loop i len out =
     (if i < len then graySequence_loop (i + 1) len (out @ [js_xor i (js_sar i 1)]) else out)"
  by pat_completeness auto
termination
  by (relation "measure (\<lambda>(i, len, out). nat (len - i))") auto

declare graySequence_loop.simps [simp del]

definition graySequence :: "int \<Rightarrow> int list" where
  "graySequence bits = (if bits \<le> 0 then [0] else graySequence_loop 0 (js_shl 1 bits) [])"

definition toBitsString :: "int \<Rightarrow> int \<Rightarrow> string" where
  "toBitsString n width = padStart (toString2 n) width (CHR ''0'')"

text \<open>
  The implicants arrive as an array of objects. \<^verbatim>\<open>implicants.indexOf(coveringGroups[0])\<close>
  compares object identities, so the array is modelled as a list of references and the
  objects live in a store that maps a reference to its fields.
\<close>

record implicant =
  bits :: string
  covered :: "int list"

type_synonym ref = nat

type_synonym store = "ref \<Rightarrow> implicant"

text \<open>The cell value \<^verbatim>\<open>'0' | '1' | 'X'\<close>.\<close>

datatype cellValue = V0 | V1 | VX

definition GROUP_RING_CLASSES :: "string list" where
  "GROUP_RING_CLASSES =
     [''ring-2 ring-emerald-400/70'',
      ''ring-2 ring-sky-400/70'',
      ''ring-2 ring-violet-400/70'',
      ''ring-2 ring-amber-400/70'',
      ''ring-2 ring-rose-400/70'']"

definition valueForMinterm :: "int list \<Rightarrow> int list \<Rightarrow> int \<Rightarrow> cellValue" where
  "valueForMinterm minterms dontCares m =
     (if includes_js minterms m then V1
      else if includes_js dontCares m then VX
      else V0)"

text \<open>What the body of the inner \<^verbatim>\<open>colGray.map\<close> computes for one cell.\<close>

record cell =
  minterm :: int
  cellVal :: cellValue
  coveringGroups :: "ref list"
  firstGroupIndex :: int
  groupRingClass :: "string option"
  bitString :: string

definition gridCell ::
  "int \<Rightarrow> int \<Rightarrow> int list \<Rightarrow> int list \<Rightarrow> store \<Rightarrow> ref list \<Rightarrow> int \<Rightarrow> int \<Rightarrow> cell" where
  "gridCell numInputs colVars minterms dontCares st implicants rg cg =
     (let m = js_or (js_shl rg colVars) cg;
          groups = filter (\<lambda>imp. includes_js (covered (st imp)) m) implicants;
          firstIndex = (if length groups > 0 then indexOf implicants (groups ! 0) else - 1)
      in \<lparr> minterm = m,
           cellVal = valueForMinterm minterms dontCares m,
           coveringGroups = groups,
           firstGroupIndex = firstIndex,
           groupRingClass =
             (if firstIndex \<ge> 0
              then arr_get GROUP_RING_CLASSES
                     (js_rem firstIndex (int (length GROUP_RING_CLASSES)))
              else Some []),
           bitString = toBitsString m numInputs \<rparr>)"

text \<open>
  What \<^verbatim>\<open>KMapGrid\<close> computes before and while it renders: the axis split, the two Gray
  sequences, the variable names of each axis, the column labels and, for every row, its
  label and its cells. \<open>None\<close> is the \<^verbatim>\<open>null\<close> the component returns. The markup around
  these values is not modelled: the styling, and the tooltip and legend texts, which
  print an implicant's \<open>bits\<close> and \<open>covered\<close> as they are.
\<close>

record grid =
  rowVars :: int
  colVars :: int
  rows :: int
  cols :: int
  rowGray :: "int list"
  colGray :: "int list"
  allVars :: "string list"
  rowLabelsVars :: "string list"
  colLabelsVars :: "string list"
  colLabels :: "string list"
  gridRows :: "(string \<times> cell list) list"

definition KMapGrid ::
  "int \<Rightarrow> int list \<Rightarrow> int list \<Rightarrow> store \<Rightarrow> ref list \<Rightarrow> grid option" where
  "KMapGrid numInputs minterms dontCares st implicants =
     (if numInputs < 2 \<or> numInputs > 6 then None
      else
        let rv = numInputs div 2;
            cv = numInputs - rv;
            rgs = graySequence rv;
            cgs = graySequence cv;
            vars = slice [''A'', ''B'', ''C'', ''D'', ''E'', ''F''] 0 numInputs
        in Some \<lparr> rowVars = rv,
                  colVars = cv,
                  rows = js_shl 1 rv,
                  cols = js_shl 1 cv,
                  rowGray = rgs,
                  colGray = cgs,
                  allVars = vars,
                  rowLabelsVars = slice vars 0 rv,
                  colLabelsVars = slice_from vars rv,
                  colLabels = map (\<lambda>g. toBitsString g cv) cgs,
                  gridRows =
                    map (\<lambda>rg. (toBitsString rg rv,
                               map (\<lambda>cg. gridCell numInputs cv minterms dontCares st implicants rg cg)
                                 cgs))
                      rgs \<rparr>)"

text \<open>All cells of a grid, row after row.\<close>

definition allCells :: "grid \<Rightarrow> cell list" where
  "allCells g = concat (map snd (gridRows g))"

section \<open>The Gray sequence\<close>

subsection \<open>The loop as a map over the counter\<close>

lemma graySequence_loop_map: "graySequence_loop i len out = out @ map (\<lambda>j. js_xor j (js_sar j 1)) [i..len - 1]"
proof (induction i len out rule: graySequence_loop.induct)
  case (1 i len out)
  show ?case
  proof (cases "i < len")
    case True
    then have "[i..len - 1] = i # [i + 1..len - 1]"
      by (simp add: upto_rec1)
    with True 1 show ?thesis
      by (subst graySequence_loop.simps) simp
  next
    case False
    then show ?thesis
      by (subst graySequence_loop.simps) simp
  qed
qed

lemma toInt32_id: "0 \<le> x \<Longrightarrow> x < 2 ^ 31 \<Longrightarrow> toInt32 x = x"
proof -
  assume a: "0 \<le> x" "x < 2 ^ 31"
  then have "- (2 ^ 31) \<le> x" by simp
  with a show ?thesis
    unfolding toInt32_def by (intro signed_take_bit_int_eq_self)
qed

lemma shiftCount_small: "0 \<le> k \<Longrightarrow> k < 32 \<Longrightarrow> shiftCount k = nat k"
  by (simp add: shiftCount_def)

lemma gray_step_int:
  assumes "0 \<le> j" "j < 2 ^ 31"
  shows "js_xor j (js_sar j 1) = j XOR (j div 2)"
proof -
  have a: "toInt32 j = j" using assms by (rule toInt32_id)
  have "0 \<le> j div 2" using assms by simp
  moreover have "j div 2 < 2 ^ 31" using assms by simp
  ultimately have b: "toInt32 (j div 2) = j div 2"
    by (rule toInt32_id)
  have "js_sar j 1 = j div 2"
    by (simp add: js_sar_def shiftCount_small a drop_bit_eq_div)
  then show ?thesis
    by (simp add: js_xor_def a b)
qed

lemma js_shl_one:
  assumes "0 \<le> k" "k \<le> 30"
  shows "js_shl 1 k = 2 ^ nat k"
proof -
  have s: "shiftCount k = nat k" using assms by (simp add: shiftCount_small)
  have one: "toInt32 1 = 1" by (simp add: toInt32_def)
  have "(2::int) ^ nat k \<le> 2 ^ 30"
    using assms by (intro power_increasing) auto
  then have "(2::int) ^ nat k < 2 ^ 31" by simp
  then have "toInt32 (2 ^ nat k) = 2 ^ nat k"
    by (intro toInt32_id) simp_all
  then show ?thesis
    by (simp add: js_shl_def s one push_bit_eq_mult)
qed

lemma graySequence_map:
  assumes "0 \<le> k" "k \<le> 30"
  shows "graySequence k = map (\<lambda>j. j XOR (j div 2)) [0..2 ^ nat k - 1]"
proof (cases "k = 0")
  case True
  then show ?thesis by (simp add: graySequence_def upto_rec1)
next
  case False
  have le: "(2::int) ^ nat k \<le> 2 ^ 30"
    using assms by (intro power_increasing) auto
  have "map (\<lambda>j. js_xor j (js_sar j 1)) [0..2 ^ nat k - 1] = map (\<lambda>j. j XOR (j div 2)) [0..2 ^ nat k - 1]"
    using le by (intro map_cong refl gray_step_int) auto
  with False assms show ?thesis
    by (simp add: graySequence_def graySequence_loop_map js_shl_one)
qed

subsection \<open>The reflected binary code \<open>j XOR (j div 2)\<close>\<close>

lemma xor_eq_zero_int: "(a::int) XOR b = 0 \<Longrightarrow> a = b"
proof -
  assume "a XOR b = 0"
  then have "(a XOR b) XOR b = b" by simp
  then show "a = b" by (simp add: xor.assoc)
qed

lemma gray_bound:
  assumes "0 \<le> (j::int)" "j < 2 ^ n"
  shows "0 \<le> j XOR (j div 2)" "j XOR (j div 2) < 2 ^ n"
proof -
  have "j div 2 \<le> j" using assms by simp
  then have h: "0 \<le> j div 2" "j div 2 < 2 ^ n" using assms by auto
  show "0 \<le> j XOR (j div 2)" using assms h by simp
  show "j XOR (j div 2) < 2 ^ n" using assms h by (intro XOR_upper)
qed

lemma gray_inj:
  assumes "0 \<le> a" "0 \<le> b" "a XOR (a div 2) = b XOR (b div 2)"
  shows "a = (b::int)"
proof -
  define d where "d = a XOR b"
  have "(a XOR (a div 2)) XOR (b XOR (b div 2)) = 0"
    using assms(3) by simp
  then have "(a XOR b) XOR ((a div 2) XOR (b div 2)) = 0"
    by (simp add: ac_simps)
  moreover have "(a div 2) XOR (b div 2) = d div 2"
    using drop_bit_xor [of 1 a b] by (simp add: d_def drop_bit_eq_div)
  ultimately have "d XOR (d div 2) = 0" by (simp add: d_def)
  then have "d = d div 2" by (rule xor_eq_zero_int)
  moreover have "0 \<le> d" using assms by (simp add: d_def)
  ultimately have "d = 0" by linarith
  then show ?thesis unfolding d_def by (rule xor_eq_zero_int)
qed

lemma succ_xor_mask: "\<exists>t. (n::nat) XOR (n + 1) = mask (Suc t)"
proof (induction n rule: nat_bit_induct)
  case zero
  have "(0::nat) XOR (0 + 1) = mask (Suc 0)" by simp
  then show ?case by blast
next
  case (even n)
  have "(2 * n) XOR (2 * n + 1) = mask (Suc 0)"
    by (subst xor_nat_rec) simp
  then show ?case by blast
next
  case (odd n)
  then obtain t where t: "n XOR (n + 1) = mask (Suc t)" by blast
  have "Suc (2 * n) XOR (Suc (2 * n) + 1) = 1 + 2 * (n XOR (n + 1))"
    by (subst xor_nat_rec) simp
  also have "\<dots> = 1 + 2 * mask (Suc t)"
    by (simp only: t)
  also have "\<dots> = mask (Suc (Suc t))"
    unfolding mask_Suc_double [of "Suc t"] by (simp only: one_or_eq) simp
  finally show ?case by blast
qed

lemma mask_xor_half: "(mask (Suc t) :: int) XOR (mask (Suc t) div 2) = 2 ^ t"
proof -
  have "(mask (Suc t) :: int) div 2 = mask t"
    using drop_bit_mask_eq [of 1 "Suc t", where ?'a = int] by (simp add: drop_bit_eq_div)
  moreover have "(mask (Suc t) :: int) XOR mask t = 2 ^ t"
    by (rule bit_eqI) (auto simp add: bit_simps)
  ultimately show ?thesis by simp
qed

lemma gray_adjacent:
  assumes "0 \<le> j"
  shows "\<exists>t. (j XOR (j div 2)) XOR ((j + 1) XOR ((j + 1) div 2)) = (2::int) ^ t"
proof -
  obtain t where "nat j XOR (nat j + 1) = mask (Suc t)"
    using succ_xor_mask by blast
  then have "int (nat j XOR (nat j + 1)) = int (mask (Suc t))" by simp
  moreover have "int (nat j XOR (nat j + 1)) = j XOR (j + 1)"
    using assms by (simp add: of_nat_xor_eq add.commute)
  ultimately have m: "j XOR (j + 1) = mask (Suc t)"
    by (simp only: of_nat_mask_eq)
  have "(j XOR (j div 2)) XOR ((j + 1) XOR ((j + 1) div 2))
      = (j XOR (j + 1)) XOR ((j div 2) XOR ((j + 1) div 2))"
    by (simp add: ac_simps)
  also have "(j div 2) XOR ((j + 1) div 2) = (j XOR (j + 1)) div 2"
    using drop_bit_xor [of 1 j "j + 1"] by (simp add: drop_bit_eq_div)
  finally show ?thesis
    using mask_xor_half [of t] by (metis m)
qed

lemma gray_last:
  "((2::int) ^ Suc t - 1) XOR ((2 ^ Suc t - 1) div 2) = 2 ^ t"
  using mask_xor_half [of t] by (simp only: mask_eq_exp_minus_1)

lemma one_bit_int:
  assumes "(x::int) XOR y = 2 ^ t"
  shows "\<exists>!n. bit x n \<noteq> bit y n"
proof -
  have "(bit x n \<noteq> bit y n) = (n = t)" for n
    using assms bit_xor_iff [of x y n] by (simp add: bit_exp_iff)
  then show ?thesis by auto
qed

subsection \<open>Length, elements and cyclic adjacency of \<open>graySequence\<close>\<close>

lemma graySequence_length:
  assumes "0 \<le> k" "k \<le> 30"
  shows "length (graySequence k) = 2 ^ nat k"
proof -
  have "nat ((2::int) ^ nat k) = 2 ^ nat k"
    by (simp add: nat_power_eq)
  then show ?thesis
    using assms by (simp add: graySequence_map)
qed

lemma graySequence_nth:
  assumes "0 \<le> k" "k \<le> 30" "i < 2 ^ nat k"
  shows "graySequence k ! i = int i XOR (int i div 2)"
proof -
  have "int i < 2 ^ nat k"
    using assms(3) by (metis of_nat_less_iff of_nat_numeral of_nat_power)
  then have "[0..2 ^ nat k - 1] ! i = 0 + int i"
    by (intro nth_upto) simp
  moreover have "i < length [0..(2::int) ^ nat k - 1]"
    using assms(3) by (simp add: nat_power_eq)
  ultimately show ?thesis
    using assms by (simp add: graySequence_map)
qed

lemma graySequence_distinct:
  assumes "0 \<le> k" "k \<le> 30"
  shows "distinct (graySequence k)"
proof -
  have "inj_on (\<lambda>j. j XOR (j div 2)) {0..(2::int) ^ nat k - 1}"
    by (rule inj_onI) (auto intro: gray_inj)
  then show ?thesis
    using assms by (simp add: graySequence_map distinct_map)
qed

lemma graySequence_set:
  assumes "0 \<le> k" "k \<le> 30"
  shows "set (graySequence k) = {0..<2 ^ nat k}"
proof -
  let ?A = "{0..(2::int) ^ nat k - 1}"
  let ?g = "\<lambda>j::int. j XOR (j div 2)"
  have s: "set (graySequence k) = ?g ` ?A"
    using assms by (simp add: graySequence_map)
  have sub: "?g ` ?A \<subseteq> {0..<2 ^ nat k}"
  proof
    fix x assume "x \<in> ?g ` ?A"
    then obtain j where j: "0 \<le> j" "j < 2 ^ nat k" "x = ?g j" by auto
    then show "x \<in> {0..<2 ^ nat k}"
      using gray_bound [of j "nat k"] by simp
  qed
  have "inj_on ?g ?A"
    by (rule inj_onI) (auto intro: gray_inj)
  then have "card (?g ` ?A) = card ?A" by (rule card_image)
  also have "\<dots> = card {0..<(2::int) ^ nat k}" by simp
  finally have "?g ` ?A = {0..<2 ^ nat k}"
    using sub by (intro card_subset_eq) simp_all
  with s show ?thesis by simp
qed

lemma graySequence_cyclic:
  assumes "1 \<le> k" "k \<le> 30" "i < 2 ^ nat k"
  shows "\<exists>t. graySequence k ! i XOR graySequence k ! ((i + 1) mod 2 ^ nat k) = 2 ^ t"
proof (cases "i + 1 < 2 ^ nat k")
  case True
  have k0: "0 \<le> k" using assms by simp
  have "graySequence k ! (i + 1) = int (i + 1) XOR (int (i + 1) div 2)"
    using k0 assms(2) True by (rule graySequence_nth)
  moreover have "graySequence k ! i = int i XOR (int i div 2)"
    using k0 assms(2,3) by (rule graySequence_nth)
  moreover have "int (i + 1) = int i + 1" by simp
  moreover have "(i + 1) mod 2 ^ nat k = i + 1"
    using True by simp
  ultimately show ?thesis
    using gray_adjacent [of "int i"] by (simp only: of_nat_0_le_iff)
next
  case False
  have k0: "0 \<le> k" using assms by simp
  obtain t where t: "nat k = Suc t"
    using assms(1) by (cases "nat k") auto
  from False assms(3) have i: "i = 2 ^ nat k - 1" by simp
  have pos: "0 < (2::nat) ^ nat k" by simp
  have "int i = 2 ^ Suc t - 1"
    unfolding i t by (simp add: of_nat_diff)
  moreover have "graySequence k ! i = int i XOR (int i div 2)"
    using k0 assms(2,3) by (rule graySequence_nth)
  ultimately have a: "graySequence k ! i = 2 ^ t"
    using gray_last [of t] by simp
  have "(i + 1) mod 2 ^ nat k = 0"
    using pos by (simp add: i)
  moreover have "graySequence k ! 0 = int 0 XOR (int 0 div 2)"
    using k0 assms(2) pos by (rule graySequence_nth)
  ultimately have "graySequence k ! ((i + 1) mod 2 ^ nat k) = 0" by simp
  with a show ?thesis by simp
qed

text \<open>
  From the width 31 on the shift no longer yields \<open>2 ^ k\<close>: the bound of the loop stays
  below \<open>2 ^ 31\<close>, and so does the length of the result.
\<close>

lemma graySequence_wide:
  assumes "31 \<le> k"
  shows "length (graySequence k) < 2 ^ 31" "length (graySequence k) \<noteq> 2 ^ nat k"
proof -
  have "js_shl 1 k < 2 ^ 31"
    unfolding js_shl_def toInt32_def by (rule signed_take_bit_int_less_exp)
  then have "nat (js_shl 1 k) < 2 ^ 31"
    by (simp add: nat_less_iff)
  moreover have "length (graySequence k) = nat (js_shl 1 k)"
    using assms by (simp add: graySequence_def graySequence_loop_map)
  ultimately show a: "length (graySequence k) < 2 ^ 31" by simp
  have "(2::nat) ^ 31 \<le> 2 ^ nat k"
    using assms by (intro power_increasing) auto
  with a show "length (graySequence k) \<noteq> 2 ^ nat k" by simp
qed

text \<open>
  Claim C4, for the widths the 32-bit shift can serve. For every bit-width \<open>k\<close> with
  \<open>0 \<le> k \<le> 30\<close>, \<open>graySequence k\<close> has length \<open>2 ^ k\<close>, its \<open>i\<close>-th element is
  \<open>i XOR (i >> 1)\<close>, it is \<open>[0]\<close> when \<open>k = 0\<close>, it is a permutation of \<open>[0, 2 ^ k)\<close>
  (no element twice, and exactly the elements of that range), and for \<open>k \<ge> 1\<close> every two
  cyclically consecutive elements, the last and the first among them, differ in exactly
  one bit. (With \<open>k = 0\<close> the sequence has one element and no two positions to compare.)
  \<open>graySequence\<close> is a total function: its loop terminates for every bound.
\<close>

theorem graySequence_gray_code:
  assumes "0 \<le> k" "k \<le> 30"
  shows "length (graySequence k) = 2 ^ nat k
       \<and> (\<forall>i < 2 ^ nat k. graySequence k ! i = int i XOR drop_bit 1 (int i))
       \<and> (k = 0 \<longrightarrow> graySequence k = [0])
       \<and> distinct (graySequence k)
       \<and> set (graySequence k) = {0..<2 ^ nat k}
       \<and> (1 \<le> k \<longrightarrow>
            (\<forall>i < 2 ^ nat k. \<exists>!b. bit (graySequence k ! i) b
                                    \<noteq> bit (graySequence k ! ((i + 1) mod 2 ^ nat k)) b))"
proof (intro conjI allI impI)
  show "length (graySequence k) = 2 ^ nat k"
    using assms by (rule graySequence_length)
  show "graySequence k ! i = int i XOR drop_bit 1 (int i)" if "i < 2 ^ nat k" for i
    using graySequence_nth [OF assms that] by (simp add: drop_bit_eq_div)
  show "graySequence k = [0]" if "k = 0"
    using that by (simp add: graySequence_def)
  show "distinct (graySequence k)"
    using assms by (rule graySequence_distinct)
  show "set (graySequence k) = {0..<2 ^ nat k}"
    using assms by (rule graySequence_set)
  show "\<exists>!b. bit (graySequence k ! i) b \<noteq> bit (graySequence k ! ((i + 1) mod 2 ^ nat k)) b"
    if "1 \<le> k" "i < 2 ^ nat k" for i
    using graySequence_cyclic [OF that(1) assms(2) that(2)] one_bit_int by blast
qed

theorem graySequence_gray_code_witness:
  "(0::int) \<le> 2 \<and> (2::int) \<le> 30
   \<and> length (graySequence 2) = 4
   \<and> graySequence 2 ! 3 = 2
   \<and> distinct (graySequence 2)
   \<and> set (graySequence 2) = {0..<4}"
proof -
  have h: "(0::int) \<le> 2" "(2::int) \<le> 30" by simp_all
  have n: "(2::nat) ^ nat 2 = 4" by simp
  have "(3::nat) < 2 ^ nat 2" by simp
  with graySequence_gray_code [OF h]
  have "graySequence 2 ! 3 = int 3 XOR drop_bit 1 (int 3)" by blast
  then have "graySequence 2 ! 3 = 2" by (simp add: drop_bit_eq_div)
  with graySequence_gray_code [OF h] h n show ?thesis by simp
qed

text \<open>
  C4 as stated ranges over every \<open>k \<ge> 0\<close>. \<^verbatim>\<open>1 << 31\<close> is \<open>- 2 ^ 31\<close> in JavaScript,
  so for \<open>k = 31\<close> the loop bound is negative, the loop body never runs and the result is
  the empty array, not a sequence of length \<open>2 ^ 31\<close>. (By \<open>graySequence_wide\<close> the length
  differs from \<open>2 ^ k\<close> for every \<open>k \<ge> 31\<close>.)
\<close>

theorem graySequence_width_31_counterexample:
  "graySequence 31 = [] \<and> length (graySequence 31) \<noteq> 2 ^ 31"
  by (simp add: graySequence_def graySequence_loop.simps js_shl_def toInt32_def shiftCount_def)

section \<open>The grid and its cells\<close>

subsection \<open>What a cell holds\<close>

lemma gridCell_fields [simp]:
  "minterm (gridCell n cv ms dcs st imps rg cg) = js_or (js_shl rg cv) cg"
  "cellVal (gridCell n cv ms dcs st imps rg cg) = valueForMinterm ms dcs (js_or (js_shl rg cv) cg)"
  "coveringGroups (gridCell n cv ms dcs st imps rg cg)
     = filter (\<lambda>imp. includes_js (covered (st imp)) (js_or (js_shl rg cv) cg)) imps"
  "bitString (gridCell n cv ms dcs st imps rg cg) = toBitsString (js_or (js_shl rg cv) cg) n"
  by (simp_all add: gridCell_def Let_def)

lemma gridCell_firstGroupIndex:
  "firstGroupIndex (gridCell n cv ms dcs st imps rg cg) =
     (let groups = coveringGroups (gridCell n cv ms dcs st imps rg cg)
      in if groups = [] then - 1 else indexOf imps (hd groups))"
  by (simp add: gridCell_def Let_def hd_conv_nth)

lemma gridCell_groupRingClass:
  "groupRingClass (gridCell n cv ms dcs st imps rg cg) =
     (let i = firstGroupIndex (gridCell n cv ms dcs st imps rg cg)
      in if 0 \<le> i then arr_get GROUP_RING_CLASSES (js_rem i (int (length GROUP_RING_CLASSES)))
         else Some [])"
  by (simp add: gridCell_def Let_def)

subsection \<open>The grid of a variable count in range\<close>

lemma KMapGrid_Some:
  assumes "2 \<le> n" "n \<le> 6"
  shows "\<exists>g. KMapGrid n ms dcs st imps = Some g
           \<and> rowVars g = n div 2 \<and> colVars g = n - n div 2
           \<and> rowGray g = graySequence (n div 2) \<and> colGray g = graySequence (n - n div 2)
           \<and> map snd (gridRows g) =
                map (\<lambda>rg. map (\<lambda>cg. gridCell n (n - n div 2) ms dcs st imps rg cg)
                            (graySequence (n - n div 2)))
                  (graySequence (n div 2))"
  using assms by (simp add: KMapGrid_def Let_def o_def)

lemma in_allCells:
  assumes "KMapGrid n ms dcs st imps = Some g" "c \<in> set (allCells g)"
  shows "\<exists>rg \<in> set (graySequence (n div 2)). \<exists>cg \<in> set (graySequence (n - n div 2)).
           c = gridCell n (n - n div 2) ms dcs st imps rg cg"
proof -
  from assms(1) have n: "2 \<le> n" "n \<le> 6"
    by (auto simp add: KMapGrid_def split: if_splits)
  from KMapGrid_Some [OF n, of ms dcs st imps] assms(1)
  have "map snd (gridRows g) =
          map (\<lambda>rg. map (\<lambda>cg. gridCell n (n - n div 2) ms dcs st imps rg cg)
                      (graySequence (n - n div 2)))
            (graySequence (n div 2))"
    by auto
  with assms(2) show ?thesis
    by (auto simp add: allCells_def)
qed

subsection \<open>\<open>indexOf\<close> on the first element that passes a filter\<close>

lemma indexOf_from_first:
  assumes "filter P xs \<noteq> []"
  shows "\<exists>i < length xs. indexOf_from xs (hd (filter P xs)) k = k + int i
           \<and> xs ! i = hd (filter P xs) \<and> P (xs ! i) \<and> (\<forall>j < i. \<not> P (xs ! j))"
  using assms
proof (induction xs arbitrary: k)
  case Nil
  then show ?case by simp
next
  case (Cons x xs)
  show ?case
  proof (cases "P x")
    case True
    then have "indexOf_from (x # xs) (hd (filter P (x # xs))) k = k + int 0
      \<and> (x # xs) ! 0 = hd (filter P (x # xs)) \<and> P ((x # xs) ! 0) \<and> (\<forall>j < 0. \<not> P ((x # xs) ! j))"
      by simp
    then show ?thesis by blast
  next
    case False
    with Cons.prems have ne: "filter P xs \<noteq> []" by simp
    from Cons.IH [OF ne, of "k + 1"] obtain i where i: "i < length xs"
      "indexOf_from xs (hd (filter P xs)) (k + 1) = k + 1 + int i"
      "xs ! i = hd (filter P xs)" "P (xs ! i)" "\<forall>j < i. \<not> P (xs ! j)"
      by blast
    from i(3,4) False have "x \<noteq> hd (filter P xs)" by auto
    with False i have "indexOf_from (x # xs) (hd (filter P (x # xs))) k = k + int (Suc i)
      \<and> (x # xs) ! Suc i = hd (filter P (x # xs)) \<and> P ((x # xs) ! Suc i)"
      by simp
    moreover have "\<forall>j < Suc i. \<not> P ((x # xs) ! j)"
      using False i(5) by (auto simp add: less_Suc_eq_0_disj)
    moreover have "Suc i < length (x # xs)" using i(1) by simp
    ultimately show ?thesis by blast
  qed
qed

lemma filter_by_index:
  "filter P xs = map (\<lambda>i. xs ! i) (filter (\<lambda>i. P (xs ! i)) [0..<length xs])"
proof (induction xs rule: rev_induct)
  case Nil
  then show ?case by simp
next
  case (snoc x xs)
  have "map (\<lambda>i. (xs @ [x]) ! i) (filter (\<lambda>i. P ((xs @ [x]) ! i)) [0..<length xs])
      = map (\<lambda>i. xs ! i) (filter (\<lambda>i. P (xs ! i)) [0..<length xs])"
    by (intro map_cong filter_cong refl) (auto simp add: nth_append)
  with snoc show ?case by simp
qed

lemma js_rem_nonneg: "0 \<le> a \<Longrightarrow> 0 < b \<Longrightarrow> js_rem a b = a mod b"
  by (cases "a = 0") (simp_all add: js_rem_def)

lemma ring_class_at:
  "arr_get GROUP_RING_CLASSES (js_rem (int p) (int (length GROUP_RING_CLASSES)))
     = Some (GROUP_RING_CLASSES ! (p mod length GROUP_RING_CLASSES))"
proof -
  have len: "length GROUP_RING_CLASSES = 5"
    by (simp add: GROUP_RING_CLASSES_def)
  have "js_rem (int p) (int (length GROUP_RING_CLASSES)) = int (p mod 5)"
    by (simp add: js_rem_nonneg len zmod_int)
  then show ?thesis
    by (simp add: arr_get_def len)
qed

subsection \<open>The Gray sequences of the widths a grid uses\<close>

lemma graySequence_1: "graySequence 1 = [0, 1]"
  by (simp add: graySequence_def graySequence_loop.simps js_shl_def js_xor_def js_sar_def
      toInt32_def shiftCount_def)

lemma graySequence_2: "graySequence 2 = [0, 1, 3, 2]"
  by (simp add: graySequence_def graySequence_loop.simps js_shl_def js_xor_def js_sar_def
      toInt32_def shiftCount_def)

lemma graySequence_3: "graySequence 3 = [0, 1, 3, 2, 6, 7, 5, 4]"
  by (simp add: graySequence_def graySequence_loop.simps js_shl_def js_xor_def js_sar_def
      toInt32_def shiftCount_def)

section \<open>Cell classification\<close>

lemma valueForMinterm_iff:
  "valueForMinterm ms dcs m = V1 \<longleftrightarrow> m \<in> set ms"
  "valueForMinterm ms dcs m = VX \<longleftrightarrow> m \<in> set dcs \<and> m \<notin> set ms"
  "valueForMinterm ms dcs m = V0 \<longleftrightarrow> m \<notin> set ms \<and> m \<notin> set dcs"
  by (auto simp add: valueForMinterm_def includes_js_def)

text \<open>
  Claim C2. For a variable count in \<open>[2, 6]\<close>, with the on-set and the don't-care set
  disjoint subsets of \<open>[0, 2 ^ n)\<close>, the component returns a grid, and every cell of it
  has the value \<^verbatim>\<open>'1'\<close> exactly when its minterm index is in the on-set, the value
  \<^verbatim>\<open>'X'\<close> exactly when its minterm index is in the don't-care set and not in the on-set,
  and the value \<^verbatim>\<open>'0'\<close> otherwise.
\<close>

theorem cell_classification:
  assumes "2 \<le> n" "n \<le> 6"
    and "set ms \<subseteq> {0..<2 ^ nat n}" "set dcs \<subseteq> {0..<2 ^ nat n}" "set ms \<inter> set dcs = {}"
  shows "\<exists>g. KMapGrid n ms dcs st imps = Some g \<and>
          (\<forall>c \<in> set (allCells g).
              (cellVal c = V1 \<longleftrightarrow> minterm c \<in> set ms)
            \<and> (cellVal c = VX \<longleftrightarrow> minterm c \<in> set dcs \<and> minterm c \<notin> set ms)
            \<and> (cellVal c = V0 \<longleftrightarrow> minterm c \<notin> set ms \<and> minterm c \<notin> set dcs))"
proof -
  from KMapGrid_Some [OF assms(1,2)] obtain g where g: "KMapGrid n ms dcs st imps = Some g"
    by blast
  have "(cellVal c = V1 \<longleftrightarrow> minterm c \<in> set ms)
      \<and> (cellVal c = VX \<longleftrightarrow> minterm c \<in> set dcs \<and> minterm c \<notin> set ms)
      \<and> (cellVal c = V0 \<longleftrightarrow> minterm c \<notin> set ms \<and> minterm c \<notin> set dcs)"
    if "c \<in> set (allCells g)" for c
  proof -
    from in_allCells [OF g that] obtain rg cg
      where "c = gridCell n (n - n div 2) ms dcs st imps rg cg" by blast
    then show ?thesis by (simp add: valueForMinterm_iff)
  qed
  with g show ?thesis by blast
qed

theorem cell_classification_witness:
  "(2::int) \<le> 2 \<and> (2::int) \<le> 6
   \<and> set [0, 3] \<subseteq> {0..<(2::int) ^ nat 2} \<and> set [1] \<subseteq> {0..<(2::int) ^ nat 2}
   \<and> set [0, 3] \<inter> set [1] = ({}::int set)
   \<and> KMapGrid 2 [0, 3] [1] (\<lambda>r. \<lparr>bits = ''00'', covered = [0]\<rparr>) [0] \<noteq> None
   \<and> cellVal (allCells (the (KMapGrid 2 [0, 3] [1] (\<lambda>r. \<lparr>bits = ''00'', covered = [0]\<rparr>) [0])) ! 0) = V1
   \<and> cellVal (allCells (the (KMapGrid 2 [0, 3] [1] (\<lambda>r. \<lparr>bits = ''00'', covered = [0]\<rparr>) [0])) ! 1) = VX
   \<and> cellVal (allCells (the (KMapGrid 2 [0, 3] [1] (\<lambda>r. \<lparr>bits = ''00'', covered = [0]\<rparr>) [0])) ! 2) = V0"
proof -
  let ?st = "\<lambda>r::ref. \<lparr>bits = ''00'', covered = [0]\<rparr>"
  let ?g = "the (KMapGrid 2 [0, 3] [1] ?st [0])"
  have h: "(2::int) \<le> 2" "(2::int) \<le> 6" "set [0, 3] \<subseteq> {0..<(2::int) ^ nat 2}"
    "set [1] \<subseteq> {0..<(2::int) ^ nat 2}" "set [0, 3] \<inter> set [1] = ({}::int set)"
    by simp_all
  from cell_classification [OF h, of ?st "[0]"]
  obtain g where g: "KMapGrid 2 [0, 3] [1] ?st [0] = Some g"
    and all: "\<forall>c \<in> set (allCells g).
              (cellVal c = V1 \<longleftrightarrow> minterm c \<in> set [0, 3])
            \<and> (cellVal c = VX \<longleftrightarrow> minterm c \<in> set [1] \<and> minterm c \<notin> set [0, 3])
            \<and> (cellVal c = V0 \<longleftrightarrow> minterm c \<notin> set [0, 3] \<and> minterm c \<notin> set [1])"
    by blast
  from g have gg: "?g = g" by simp
  have m: "map minterm (allCells ?g) = [0, 1, 2, 3]"
    by code_simp
  have len: "length (allCells ?g) = 4"
    using arg_cong [OF m, of length] by simp
  have mem: "allCells g ! i \<in> set (allCells g)" if "i < 4" for i
    using that len by (simp add: gg)
  have mi: "minterm (allCells g ! i) = [0, 1, 2, 3] ! i" if "i < 4" for i
    using that len arg_cong [OF m, of "\<lambda>xs. xs ! i"] by (simp add: gg)
  have "cellVal (allCells g ! 0) = V1"
    using all [rule_format, OF mem [of 0]] mi [of 0] by simp
  moreover have "cellVal (allCells g ! 1) = VX"
    using all [rule_format, OF mem [of 1]] mi [of 1] by simp
  moreover have "cellVal (allCells g ! 2) = V0"
    using all [rule_format, OF mem [of 2]] mi [of 2] by simp
  ultimately show ?thesis
    using h g by (simp only: option.sel option.distinct simp_thms)
qed

text \<open>
  Claim C10. When a minterm index is in both lists, the cell holding it has the value
  \<^verbatim>\<open>'1'\<close>: \<open>valueForMinterm\<close> tests the minterms list first.
\<close>

theorem on_before_dontCare:
  assumes "2 \<le> n" "n \<le> 6"
  shows "\<exists>g. KMapGrid n ms dcs st imps = Some g \<and>
          (\<forall>c \<in> set (allCells g).
              minterm c \<in> set ms \<and> minterm c \<in> set dcs \<longrightarrow> cellVal c = V1)"
proof -
  from KMapGrid_Some [OF assms] obtain g where g: "KMapGrid n ms dcs st imps = Some g"
    by blast
  have "cellVal c = V1" if "c \<in> set (allCells g)" "minterm c \<in> set ms" for c
  proof -
    from in_allCells [OF g that(1)] obtain rg cg
      where "c = gridCell n (n - n div 2) ms dcs st imps rg cg" by blast
    with that(2) show ?thesis by (simp add: valueForMinterm_iff)
  qed
  with g show ?thesis by blast
qed

theorem on_before_dontCare_witness:
  "(2::int) \<le> 2 \<and> (2::int) \<le> 6
   \<and> minterm (allCells (the (KMapGrid 2 [1] [1, 2] (\<lambda>r. \<lparr>bits = ''01'', covered = [1]\<rparr>) [0])) ! 1) = 1
   \<and> (1::int) \<in> set [1] \<and> (1::int) \<in> set [1, 2]
   \<and> cellVal (allCells (the (KMapGrid 2 [1] [1, 2] (\<lambda>r. \<lparr>bits = ''01'', covered = [1]\<rparr>) [0])) ! 1) = V1"
proof -
  let ?st = "\<lambda>r::ref. \<lparr>bits = ''01'', covered = [1]\<rparr>"
  let ?g = "the (KMapGrid 2 [1] [1, 2] ?st [0])"
  have h: "(2::int) \<le> 2" "(2::int) \<le> 6" by simp_all
  from on_before_dontCare [OF h, of "[1]" "[1, 2]" ?st "[0]"]
  have c: "\<forall>c \<in> set (allCells ?g).
              minterm c \<in> set [1] \<and> minterm c \<in> set [1, 2] \<longrightarrow> cellVal c = V1"
    by auto
  have m: "map minterm (allCells ?g) = [0, 1, 2, 3]"
    by code_simp
  have len: "length (allCells ?g) = 4"
    using arg_cong [OF m, of length] by simp
  have m1: "minterm (allCells ?g ! 1) = 1"
    using len arg_cong [OF m, of "\<lambda>xs. xs ! 1"] by simp
  have "allCells ?g ! 1 \<in> set (allCells ?g)"
    using len by simp
  from c [rule_format, OF this] m1 have "cellVal (allCells ?g ! 1) = V1" by simp
  with h m1 show ?thesis by simp
qed

section \<open>Variable counts out of range\<close>

text \<open>
  Claim C8. For a variable count below 2 or above 6 the component returns \<^verbatim>\<open>null\<close>:
  the guard is its first statement, so no axis split, Gray sequence, cell or overlay is
  computed and no grid is produced.
\<close>

theorem outside_range_no_grid:
  "n < 2 \<or> 6 < n \<Longrightarrow> KMapGrid n ms dcs st imps = None"
  by (simp add: KMapGrid_def)

theorem outside_range_no_grid_witness:
  "((1::int) < 2 \<or> (6::int) < 1)
   \<and> KMapGrid 1 [0] [1] (\<lambda>r. \<lparr>bits = ''0'', covered = [0]\<rparr>) [0] = None
   \<and> ((7::int) < 2 \<or> (6::int) < 7)
   \<and> KMapGrid 7 [0] [1] (\<lambda>r. \<lparr>bits = ''0000000'', covered = [0]\<rparr>) [0] = None"
proof -
  have a: "(1::int) < 2 \<or> (6::int) < 1" and b: "(7::int) < 2 \<or> (6::int) < 7"
    by simp_all
  from outside_range_no_grid [OF a] outside_range_no_grid [OF b] a b
  show ?thesis by blast
qed

section \<open>The implicant overlay\<close>

text \<open>
  Claim C3. For every cell, the covering implicants are exactly the implicants of the
  input list whose \<open>covered\<close> list contains the cell's minterm index, in the order of
  the input list; all of them are kept. Said with positions: they are the entries of the
  input list at the positions \<open>i\<close>, in ascending order, whose implicant covers the cell.
\<close>

theorem covering_implicants:
  assumes "2 \<le> n" "n \<le> 6"
  shows "\<exists>g. KMapGrid n ms dcs st imps = Some g \<and>
          (\<forall>c \<in> set (allCells g).
              coveringGroups c = filter (\<lambda>r. minterm c \<in> set (covered (st r))) imps
            \<and> coveringGroups c =
                map (\<lambda>i. imps ! i)
                  (filter (\<lambda>i. minterm c \<in> set (covered (st (imps ! i)))) [0..<length imps]))"
proof -
  from KMapGrid_Some [OF assms] obtain g where g: "KMapGrid n ms dcs st imps = Some g"
    by blast
  have "coveringGroups c = filter (\<lambda>r. minterm c \<in> set (covered (st r))) imps
      \<and> coveringGroups c =
          map (\<lambda>i. imps ! i)
            (filter (\<lambda>i. minterm c \<in> set (covered (st (imps ! i)))) [0..<length imps])"
    if "c \<in> set (allCells g)" for c
  proof -
    from in_allCells [OF g that] obtain rg cg
      where "c = gridCell n (n - n div 2) ms dcs st imps rg cg" by blast
    then have "coveringGroups c = filter (\<lambda>r. minterm c \<in> set (covered (st r))) imps"
      by (simp add: includes_js_def)
    then show ?thesis
      using filter_by_index [of "\<lambda>r. minterm c \<in> set (covered (st r))" imps] by simp
  qed
  with g show ?thesis by blast
qed

theorem covering_implicants_witness:
  "(2::int) \<le> 2 \<and> (2::int) \<le> 6
   \<and> map coveringGroups
        (allCells (the (KMapGrid 2 [0, 1, 3] []
           (\<lambda>r. if r = 0 then \<lparr>bits = ''0-'', covered = [0, 1]\<rparr>
                else \<lparr>bits = ''-1'', covered = [3, 1]\<rparr>) [0, 1])))
       = [[0], [0, 1], [], [1]]"
proof -
  let ?st = "\<lambda>r::ref. if r = 0 then \<lparr>bits = ''0-'', covered = [0, 1]\<rparr>
                else \<lparr>bits = ''-1'', covered = [3, 1]\<rparr>"
  let ?g = "the (KMapGrid 2 [0, 1, 3] [] ?st [0, 1])"
  have h: "(2::int) \<le> 2" "(2::int) \<le> 6" by simp_all
  from covering_implicants [OF h, of "[0, 1, 3]" "[]" ?st "[0, 1]"]
  have c: "\<forall>c \<in> set (allCells ?g).
             coveringGroups c = filter (\<lambda>r. minterm c \<in> set (covered (?st r))) [0, 1]"
    by auto
  have m: "map minterm (allCells ?g) = [0, 1, 2, 3]"
    by code_simp
  have len: "length (allCells ?g) = 4"
    using arg_cong [OF m, of length] by simp
  have "coveringGroups (allCells ?g ! i) = [[0], [0, 1], [], [1]] ! i" if "i < 4" for i
  proof -
    have mem: "allCells ?g ! i \<in> set (allCells ?g)"
      using that len by simp
    have "minterm (allCells ?g ! i) = [0, 1, 2, 3] ! i"
      using that len arg_cong [OF m, of "\<lambda>xs. xs ! i"] by simp
    with c [rule_format, OF mem] that show ?thesis
      by (auto simp add: less_Suc_eq numeral_eq_Suc)
  qed
  then have "map coveringGroups (allCells ?g) = [[0], [0, 1], [], [1]]"
    using len by (intro nth_equalityI) auto
  with h show ?thesis by simp
qed

text \<open>
  Claim C6. A cell that no implicant covers has first group index \<open>-1\<close> and the empty
  ring class. Otherwise the first group index is the position \<open>p\<close> in the input list of the
  first covering implicant (the head of the cell's covering list; no earlier entry is
  that implicant, and no earlier entry covers the cell), and the ring class of the cell
  is the entry \<open>p mod 5\<close> of the five ring classes, so a position beyond the palette
  takes a colour again and the read never leaves the palette.
\<close>

theorem primary_implicant_highlight:
  assumes "2 \<le> n" "n \<le> 6"
  shows "length GROUP_RING_CLASSES = 5 \<and>
     (\<exists>g. KMapGrid n ms dcs st imps = Some g \<and>
       (\<forall>c \<in> set (allCells g).
          (coveringGroups c = [] \<longrightarrow> firstGroupIndex c = - 1 \<and> groupRingClass c = Some [])
        \<and> (coveringGroups c \<noteq> [] \<longrightarrow>
             (\<exists>p < length imps.
                 firstGroupIndex c = int p
               \<and> imps ! p = hd (coveringGroups c)
               \<and> (\<forall>j < p. imps ! j \<noteq> hd (coveringGroups c))
               \<and> (\<forall>j < p. minterm c \<notin> set (covered (st (imps ! j))))
               \<and> groupRingClass c
                   = Some (GROUP_RING_CLASSES ! (p mod length GROUP_RING_CLASSES))))))"
proof
  show "length GROUP_RING_CLASSES = 5"
    by (simp add: GROUP_RING_CLASSES_def)
  from KMapGrid_Some [OF assms] obtain g where g: "KMapGrid n ms dcs st imps = Some g"
    by blast
  have "(coveringGroups c = [] \<longrightarrow> firstGroupIndex c = - 1 \<and> groupRingClass c = Some [])
        \<and> (coveringGroups c \<noteq> [] \<longrightarrow>
             (\<exists>p < length imps.
                 firstGroupIndex c = int p
               \<and> imps ! p = hd (coveringGroups c)
               \<and> (\<forall>j < p. imps ! j \<noteq> hd (coveringGroups c))
               \<and> (\<forall>j < p. minterm c \<notin> set (covered (st (imps ! j))))
               \<and> groupRingClass c
                   = Some (GROUP_RING_CLASSES ! (p mod length GROUP_RING_CLASSES))))"
    if "c \<in> set (allCells g)" for c
  proof -
    from in_allCells [OF g that] obtain rg cg
      where c: "c = gridCell n (n - n div 2) ms dcs st imps rg cg" by blast
    let ?P = "\<lambda>r. minterm c \<in> set (covered (st r))"
    have cov: "coveringGroups c = filter ?P imps"
      by (simp add: c includes_js_def)
    show ?thesis
    proof (cases "coveringGroups c = []")
      case True
      then have "firstGroupIndex c = - 1"
        unfolding c by (simp add: gridCell_firstGroupIndex)
      moreover from this have "groupRingClass c = Some []"
        unfolding c by (simp add: gridCell_groupRingClass)
      ultimately show ?thesis using True by simp
    next
      case False
      then have ne: "filter ?P imps \<noteq> []" by (simp add: cov)
      from indexOf_from_first [OF ne, of 0] obtain p where p: "p < length imps"
        "indexOf imps (hd (filter ?P imps)) = int p" "imps ! p = hd (filter ?P imps)"
        "\<forall>j < p. \<not> ?P (imps ! j)" "?P (imps ! p)"
        by (auto simp add: indexOf_def)
      have first: "firstGroupIndex c = int p"
        using False p(2) cov unfolding c by (simp add: gridCell_firstGroupIndex)
      then have ring: "groupRingClass c
          = Some (GROUP_RING_CLASSES ! (p mod length GROUP_RING_CLASSES))"
        unfolding c by (simp add: gridCell_groupRingClass ring_class_at)
      have "\<forall>j < p. imps ! j \<noteq> hd (coveringGroups c)"
        using p(3,4,5) cov by metis
      with p first ring cov False show ?thesis by auto
    qed
  qed
  with g show "\<exists>g. KMapGrid n ms dcs st imps = Some g \<and>
       (\<forall>c \<in> set (allCells g).
          (coveringGroups c = [] \<longrightarrow> firstGroupIndex c = - 1 \<and> groupRingClass c = Some [])
        \<and> (coveringGroups c \<noteq> [] \<longrightarrow>
             (\<exists>p < length imps.
                 firstGroupIndex c = int p
               \<and> imps ! p = hd (coveringGroups c)
               \<and> (\<forall>j < p. imps ! j \<noteq> hd (coveringGroups c))
               \<and> (\<forall>j < p. minterm c \<notin> set (covered (st (imps ! j))))
               \<and> groupRingClass c
                   = Some (GROUP_RING_CLASSES ! (p mod length GROUP_RING_CLASSES)))))"
    by blast
qed

theorem primary_implicant_highlight_witness:
  "(2::int) \<le> 3 \<and> (3::int) \<le> 6
   \<and> coveringGroups (allCells (the (KMapGrid 3 [4, 5] []
        (\<lambda>r. \<lparr>bits = ''---'', covered = [int r, 5]\<rparr>) [0, 1, 2, 3, 4, 5, 6])) ! 5) = [0, 1, 2, 3, 4, 5, 6]
   \<and> firstGroupIndex (allCells (the (KMapGrid 3 [4, 5] []
        (\<lambda>r. \<lparr>bits = ''---'', covered = [int r, 5]\<rparr>) [0, 1, 2, 3, 4, 5, 6])) ! 5) = 0
   \<and> firstGroupIndex (allCells (the (KMapGrid 3 [4, 5] []
        (\<lambda>r. \<lparr>bits = ''---'', covered = [int r, 5]\<rparr>) [0, 1, 2, 3, 4, 5, 6])) ! 7) = 6
   \<and> groupRingClass (allCells (the (KMapGrid 3 [4, 5] []
        (\<lambda>r. \<lparr>bits = ''---'', covered = [int r, 5]\<rparr>) [0, 1, 2, 3, 4, 5, 6])) ! 7)
       = Some ''ring-2 ring-sky-400/70''"
proof -
  let ?st = "\<lambda>r::ref. \<lparr>bits = ''---'', covered = [int r, 5]\<rparr>"
  let ?imps = "[0, 1, 2, 3, 4, 5, 6] :: ref list"
  let ?g = "the (KMapGrid 3 [4, 5] [] ?st ?imps)"
  have h: "(2::int) \<le> 3" "(3::int) \<le> 6" by simp_all
  from primary_implicant_highlight [OF h, of "[4, 5]" "[]" ?st ?imps]
  obtain g where g: "KMapGrid 3 [4, 5] [] ?st ?imps = Some g"
    and all: "\<forall>c \<in> set (allCells g). coveringGroups c \<noteq> [] \<longrightarrow>
             (\<exists>p < length ?imps. firstGroupIndex c = int p
               \<and> groupRingClass c = Some (GROUP_RING_CLASSES ! (p mod length GROUP_RING_CLASSES)))"
    by blast
  from g have "?g = g" by simp
  with all have c: "\<forall>c \<in> set (allCells ?g). coveringGroups c \<noteq> [] \<longrightarrow>
             (\<exists>p < length ?imps. firstGroupIndex c = int p
               \<and> groupRingClass c = Some (GROUP_RING_CLASSES ! (p mod length GROUP_RING_CLASSES)))"
    by simp
  have e: "map coveringGroups (allCells ?g) = [[0], [1], [3], [2], [4], [0, 1, 2, 3, 4, 5, 6], [], [6]]"
    "map firstGroupIndex (allCells ?g) = [0, 1, 3, 2, 4, 0, - 1, 6]"
    by code_simp+
  have len: "length (allCells ?g) = 8"
    using arg_cong [OF e(1), of length] by simp
  have c7: "coveringGroups (allCells ?g ! 7) = [6]" and c5: "coveringGroups (allCells ?g ! 5) = ?imps"
    and f7: "firstGroupIndex (allCells ?g ! 7) = 6" and f5: "firstGroupIndex (allCells ?g ! 5) = 0"
    using len arg_cong [OF e(1), of "\<lambda>xs. xs ! 7"] arg_cong [OF e(1), of "\<lambda>xs. xs ! 5"]
      arg_cong [OF e(2), of "\<lambda>xs. xs ! 7"] arg_cong [OF e(2), of "\<lambda>xs. xs ! 5"]
    by simp_all
  have "allCells ?g ! 7 \<in> set (allCells ?g)"
    using len by simp
  from c [rule_format, OF this] c7 f7
  have "groupRingClass (allCells ?g ! 7) = Some (GROUP_RING_CLASSES ! (6 mod length GROUP_RING_CLASSES))"
    by auto
  then have "groupRingClass (allCells ?g ! 7) = Some ''ring-2 ring-sky-400/70''"
    by (simp add: GROUP_RING_CLASSES_def)
  with h c5 f5 f7 show ?thesis by simp
qed

section \<open>The minterm index of a cell\<close>

lemma js_or_shl_small:
  assumes "0 \<le> cv" "cv \<le> 30" "0 \<le> rg" "0 \<le> cg" "cg < 2 ^ nat cv" "rg * 2 ^ nat cv < 2 ^ 31"
  shows "js_or (js_shl rg cv) cg = rg * 2 ^ nat cv + cg"
proof -
  have p: "(1::int) \<le> 2 ^ nat cv" by simp
  then have "rg * 1 \<le> rg * 2 ^ nat cv"
    using assms(3) by (intro mult_left_mono)
  then have rg: "toInt32 rg = rg"
    using assms by (intro toInt32_id) auto
  have "(2::int) ^ nat cv \<le> 2 ^ 30"
    using assms by (intro power_increasing) auto
  then have cg: "toInt32 cg = cg"
    using assms by (intro toInt32_id) auto
  have s: "shiftCount cv = nat cv"
    using assms by (simp add: shiftCount_small)
  have "0 \<le> rg * 2 ^ nat cv" using assms(3) by simp
  then have sh: "js_shl rg cv = rg * 2 ^ nat cv"
    using assms(6) by (simp add: js_shl_def rg s push_bit_eq_mult toInt32_id)
  have "0 \<le> rg * 2 ^ nat cv" using assms(3) by simp
  then have t: "toInt32 (rg * 2 ^ nat cv) = rg * 2 ^ nat cv"
    using assms(6) by (rule toInt32_id)
  have "take_bit (nat cv) cg = cg"
    using assms by (simp add: take_bit_int_eq_self)
  then have "cg OR push_bit (nat cv) rg = cg + push_bit (nat cv) rg"
    using concat_bit_eq [of "nat cv" cg rg] by (simp add: concat_bit_def)
  then show ?thesis
    by (simp add: js_or_def sh t cg push_bit_eq_mult or.commute add.commute)
qed

lemma range_from_distinct:
  assumes "distinct xs" "length xs = nat N" "\<forall>x \<in> set xs. 0 \<le> x \<and> x < N"
  shows "set xs = {0..<N}"
proof -
  have "card (set xs) = card {0..<N}"
    using assms(1,2) by (simp add: distinct_card)
  moreover have "set xs \<subseteq> {0..<N}"
    using assms(3) by auto
  ultimately show ?thesis
    by (intro card_subset_eq) simp_all
qed

lemma minterms_2:
  "concat (map (\<lambda>rg. map (\<lambda>cg. js_or (js_shl rg 1) cg) (graySequence 1)) (graySequence 1))
     = [0, 1, 2, 3]"
  by (simp add: graySequence_1 graySequence_2 graySequence_3 js_or_def js_shl_def toInt32_def shiftCount_def)

lemma minterms_3:
  "concat (map (\<lambda>rg. map (\<lambda>cg. js_or (js_shl rg 2) cg) (graySequence 2)) (graySequence 1))
     = [0, 1, 3, 2, 4, 5, 7, 6]"
  by (simp add: graySequence_1 graySequence_2 graySequence_3 js_or_def js_shl_def toInt32_def shiftCount_def)

lemma minterms_4:
  "concat (map (\<lambda>rg. map (\<lambda>cg. js_or (js_shl rg 2) cg) (graySequence 2)) (graySequence 2))
     = [0, 1, 3, 2, 4, 5, 7, 6, 12, 13, 15, 14, 8, 9, 11, 10]"
  by (simp add: graySequence_1 graySequence_2 graySequence_3 js_or_def js_shl_def toInt32_def shiftCount_def)

lemma minterms_5:
  "concat (map (\<lambda>rg. map (\<lambda>cg. js_or (js_shl rg 3) cg) (graySequence 3)) (graySequence 2))
     = [0, 1, 3, 2, 6, 7, 5, 4, 8, 9, 11, 10, 14, 15, 13, 12, 24, 25, 27, 26, 30, 31, 29, 28, 16, 17, 19, 18, 22, 23, 21, 20]"
  by (simp add: graySequence_1 graySequence_2 graySequence_3 js_or_def js_shl_def toInt32_def shiftCount_def)

lemma minterms_6:
  "concat (map (\<lambda>rg. map (\<lambda>cg. js_or (js_shl rg 3) cg) (graySequence 3)) (graySequence 3))
     = [0, 1, 3, 2, 6, 7, 5, 4, 8, 9, 11, 10, 14, 15, 13, 12, 24, 25, 27, 26, 30, 31, 29, 28, 16, 17, 19, 18, 22, 23, 21, 20, 48, 49, 51, 50, 54, 55, 53, 52, 56, 57, 59, 58, 62, 63, 61, 60, 40, 41, 43, 42, 46, 47, 45, 44, 32, 33, 35, 34, 38, 39, 37, 36]"
  by (simp add: graySequence_1 graySequence_2 graySequence_3 js_or_def js_shl_def toInt32_def shiftCount_def)

lemma allCells_Some:
  assumes "KMapGrid n ms dcs st imps = Some g"
  shows "allCells g =
     concat (map (\<lambda>rg. map (\<lambda>cg. gridCell n (n - n div 2) ms dcs st imps rg cg)
                            (graySequence (n - n div 2)))
                  (graySequence (n div 2)))"
proof -
  from assms have n: "2 \<le> n" "n \<le> 6"
    by (auto simp add: KMapGrid_def split: if_splits)
  from KMapGrid_Some [OF n, of ms dcs st imps] assms show ?thesis
    by (auto simp add: allCells_def)
qed

lemma minterms_allCells:
  assumes "KMapGrid n ms dcs st imps = Some g"
  shows "map minterm (allCells g) =
     concat (map (\<lambda>rg. map (\<lambda>cg. js_or (js_shl rg (n - n div 2)) cg)
                            (graySequence (n - n div 2)))
                  (graySequence (n div 2)))"
  by (simp add: allCells_Some [OF assms] map_concat o_def)

lemma in_range_cases: "2 \<le> n \<Longrightarrow> n \<le> 6 \<Longrightarrow> n = 2 \<or> n = 3 \<or> n = 4 \<or> n = 5 \<or> n = (6::int)"
  by arith

lemma grid_minterms:
  assumes "2 \<le> n" "n \<le> 6"
  defines "xs \<equiv> concat (map (\<lambda>rg. map (\<lambda>cg. js_or (js_shl rg (n - n div 2)) cg)
                            (graySequence (n - n div 2)))
                  (graySequence (n div 2)))"
  shows "distinct xs" "length xs = 2 ^ nat n" "\<forall>x \<in> set xs. 0 \<le> x \<and> x < 2 ^ nat n"
proof -
  from in_range_cases [OF assms(1,2)]
  have "distinct xs \<and> length xs = 2 ^ nat n \<and> (\<forall>x \<in> set xs. 0 \<le> x \<and> x < 2 ^ nat n)"
  proof (elim disjE)
    assume "n = 2"
    then show ?thesis unfolding xs_def by (simp add: minterms_2)
  next
    assume "n = 3"
    then show ?thesis unfolding xs_def by (simp add: minterms_3)
  next
    assume "n = 4"
    then show ?thesis unfolding xs_def by (simp add: minterms_4)
  next
    assume "n = 5"
    then show ?thesis unfolding xs_def by (simp add: minterms_5)
  next
    assume "n = 6"
    then show ?thesis unfolding xs_def by (simp add: minterms_6)
  qed
  then show "distinct xs" "length xs = 2 ^ nat n" "\<forall>x \<in> set xs. 0 \<le> x \<and> x < 2 ^ nat n"
    by simp_all
qed

text \<open>
  Claim C1. For every variable count \<open>n\<close> in \<open>[2, 6]\<close> the component returns a grid whose
  rows follow the row Gray sequence and whose columns follow the column Gray sequence;
  the minterm index of the cell at row value \<open>rg\<close> and column value \<open>cg\<close> is
  \<open>(rg << colVars) | cg\<close>; there are \<open>rows\<close> rows of \<open>cols\<close> cells, \<open>2 ^ n\<close> cells in all;
  and the minterm indexes of the cells, read row after row, hold every integer of
  \<open>[0, 2 ^ n)\<close> exactly once (no index twice, and exactly the integers of that range).
\<close>

theorem minterm_bijection:
  assumes "2 \<le> n" "n \<le> 6"
  shows "\<exists>g. KMapGrid n ms dcs st imps = Some g
     \<and> rowGray g = graySequence (rowVars g) \<and> colGray g = graySequence (colVars g)
     \<and> map (\<lambda>r. map minterm (snd r)) (gridRows g)
         = map (\<lambda>rg. map (\<lambda>cg. js_or (js_shl rg (colVars g)) cg) (colGray g)) (rowGray g)
     \<and> length (gridRows g) = nat (rows g)
     \<and> (\<forall>r \<in> set (gridRows g). length (snd r) = nat (cols g))
     \<and> length (allCells g) = 2 ^ nat n
     \<and> distinct (map minterm (allCells g))
     \<and> set (map minterm (allCells g)) = {0..<2 ^ nat n}"
proof -
  from KMapGrid_Some [OF assms, of ms dcs st imps] obtain g
    where g: "KMapGrid n ms dcs st imps = Some g"
      and rv: "rowVars g = n div 2" and cv: "colVars g = n - n div 2"
      and rg: "rowGray g = graySequence (n div 2)"
      and cg: "colGray g = graySequence (n - n div 2)"
      and cells: "map snd (gridRows g) =
                map (\<lambda>rg. map (\<lambda>cg. gridCell n (n - n div 2) ms dcs st imps rg cg)
                            (graySequence (n - n div 2)))
                  (graySequence (n div 2))"
    by blast
  have b: "0 \<le> n div 2" "n div 2 \<le> 30" "0 \<le> n - n div 2" "n - n div 2 \<le> 30"
    using assms by auto
  have rows_eq: "rows g = 2 ^ nat (n div 2)" and cols_eq: "cols g = 2 ^ nat (n - n div 2)"
    using g assms b by (auto simp add: KMapGrid_def Let_def js_shl_one)
  have "map (\<lambda>r. map minterm (snd r)) (gridRows g) = map (map minterm) (map snd (gridRows g))"
    by simp
  also have "\<dots> = map (\<lambda>rg. map (\<lambda>cg. js_or (js_shl rg (colVars g)) cg) (colGray g)) (rowGray g)"
    unfolding cells by (simp add: rv cv rg cg o_def)
  finally have layout: "map (\<lambda>r. map minterm (snd r)) (gridRows g)
         = map (\<lambda>rg. map (\<lambda>cg. js_or (js_shl rg (colVars g)) cg) (colGray g)) (rowGray g)" .
  have "length (gridRows g) = length (map snd (gridRows g))" by simp
  also have "\<dots> = length (graySequence (n div 2))" unfolding cells by simp
  also have "\<dots> = 2 ^ nat (n div 2)" using b by (intro graySequence_length)
  finally have nrows: "length (gridRows g) = nat (rows g)"
    by (simp add: rows_eq nat_power_eq)
  have ncols: "\<forall>r \<in> set (gridRows g). length (snd r) = nat (cols g)"
  proof
    fix r assume "r \<in> set (gridRows g)"
    then have "snd r \<in> set (map snd (gridRows g))" by simp
    then have "length (snd r) = length (graySequence (n - n div 2))"
      unfolding cells by auto
    also have "\<dots> = 2 ^ nat (n - n div 2)" using b by (intro graySequence_length)
    finally show "length (snd r) = nat (cols g)"
      by (simp add: cols_eq nat_power_eq)
  qed
  note m = minterms_allCells [OF g]
  have d: "distinct (map minterm (allCells g))"
    unfolding m using assms by (rule grid_minterms)
  have "length (map minterm (allCells g)) = 2 ^ nat n"
    unfolding m using assms by (rule grid_minterms)
  then have len: "length (allCells g) = 2 ^ nat n" by simp
  have "\<forall>x \<in> set (map minterm (allCells g)). 0 \<le> x \<and> x < 2 ^ nat n"
    unfolding m using assms by (rule grid_minterms)
  with d have "set (map minterm (allCells g)) = {0..<2 ^ nat n}"
    by (intro range_from_distinct) (simp_all add: len nat_power_eq)
  with g rv cv rg cg layout nrows ncols len d show ?thesis by simp
qed

theorem minterm_bijection_witness:
  "(2::int) \<le> 5 \<and> (5::int) \<le> 6
   \<and> length (allCells (the (KMapGrid 5 [1] [2] (\<lambda>r. \<lparr>bits = ''-----'', covered = [1]\<rparr>) [0]))) = 32
   \<and> distinct (map minterm (allCells (the (KMapGrid 5 [1] [2] (\<lambda>r. \<lparr>bits = ''-----'', covered = [1]\<rparr>) [0]))))
   \<and> set (map minterm (allCells (the (KMapGrid 5 [1] [2] (\<lambda>r. \<lparr>bits = ''-----'', covered = [1]\<rparr>) [0]))))
        = {0..<32}"
proof -
  let ?st = "\<lambda>r::ref. \<lparr>bits = ''-----'', covered = [1]\<rparr>"
  have h: "(2::int) \<le> 5" "(5::int) \<le> 6" by simp_all
  from minterm_bijection [OF h, of "[1]" "[2]" ?st "[0]"]
  obtain g where g: "KMapGrid 5 [1] [2] ?st [0] = Some g"
    and p: "length (allCells g) = 2 ^ nat 5" "distinct (map minterm (allCells g))"
      "set (map minterm (allCells g)) = {0..<2 ^ nat 5}"
    by blast
  have "(2::nat) ^ nat 5 = 32" "(2::int) ^ nat 5 = 32" by simp_all
  with p h show ?thesis
    by (simp only: g option.sel simp_thms)
qed

section \<open>The axis partition\<close>

lemma slice_0: "0 \<le> e \<Longrightarrow> slice xs 0 e = take (nat e) xs"
  by (simp add: slice_def relIndex_def Let_def min_def)

lemma slice_from_nonneg: "0 \<le> s \<Longrightarrow> slice_from xs s = drop (nat s) xs"
  by (simp add: slice_from_def relIndex_def min_def)

lemma KMapGrid_fields:
  assumes "KMapGrid n ms dcs st imps = Some g"
  shows "rows g = js_shl 1 (n div 2)" "cols g = js_shl 1 (n - n div 2)"
    "allVars g = slice [''A'', ''B'', ''C'', ''D'', ''E'', ''F''] 0 n"
    "rowLabelsVars g = slice (allVars g) 0 (n div 2)"
    "colLabelsVars g = slice_from (allVars g) (n div 2)"
proof -
  from assms have "\<not> (n < 2 \<or> n > 6)"
    by (auto simp add: KMapGrid_def split: if_splits)
  with assms have "g = the (KMapGrid n ms dcs st imps)" by simp
  then show "rows g = js_shl 1 (n div 2)" "cols g = js_shl 1 (n - n div 2)"
    "allVars g = slice [''A'', ''B'', ''C'', ''D'', ''E'', ''F''] 0 n"
    "rowLabelsVars g = slice (allVars g) 0 (n div 2)"
    "colLabelsVars g = slice_from (allVars g) (n div 2)"
    using \<open>\<not> (n < 2 \<or> n > 6)\<close> by (simp_all add: KMapGrid_def Let_def)
qed

lemma minterm_high_low:
  assumes "2 \<le> n" "n \<le> 6"
    and "rg \<in> set (graySequence (n div 2))" "cg \<in> set (graySequence (n - n div 2))"
  shows "js_or (js_shl rg (n - n div 2)) cg = rg * 2 ^ nat (n - n div 2) + cg"
proof -
  have b: "0 \<le> n div 2" "n div 2 \<le> 30" "0 \<le> n - n div 2" "n - n div 2 \<le> 30"
    using assms by auto
  from assms(3) have rg: "0 \<le> rg" "rg < 2 ^ nat (n div 2)"
    by (simp_all add: graySequence_set [OF b(1,2)])
  from assms(4) have cg: "0 \<le> cg" "cg < 2 ^ nat (n - n div 2)"
    by (simp_all add: graySequence_set [OF b(3,4)])
  have "rg * 2 ^ nat (n - n div 2) < 2 ^ nat (n div 2) * 2 ^ nat (n - n div 2)"
    using rg(2) by (intro mult_strict_right_mono) simp_all
  also have "\<dots> = 2 ^ (nat (n div 2) + nat (n - n div 2))"
    by (simp add: power_add)
  also have "nat (n div 2) + nat (n - n div 2) = nat n"
    using b by linarith
  also have "(2::int) ^ nat n \<le> 2 ^ 6"
    using assms by (intro power_increasing) auto
  finally have "rg * 2 ^ nat (n - n div 2) < 2 ^ 31" by simp
  with b rg cg show ?thesis
    by (intro js_or_shl_small)
qed

text \<open>
  Claim C7. For every variable count \<open>n\<close> in \<open>[2, 6]\<close>: \<open>rowVars = floor (n / 2)\<close>,
  \<open>colVars = n - rowVars\<close>, \<open>rows = 2 ^ rowVars\<close>, \<open>cols = 2 ^ colVars\<close>, hence
  \<open>rowVars + colVars = n\<close> and \<open>rows * cols = 2 ^ n\<close>. The variables are the first \<open>n\<close>
  letters of \<open>A..F\<close>; the first \<open>rowVars\<close> of them label the row axis and the remaining
  \<open>colVars\<close> the column axis. The row value is the high part of a cell's minterm index
  and the column value its low \<open>colVars\<close> bits: the index is
  \<open>rg * 2 ^ colVars + cg\<close>.
\<close>

theorem axis_partition:
  assumes "2 \<le> n" "n \<le> 6"
  shows "\<exists>g. KMapGrid n ms dcs st imps = Some g
     \<and> rowVars g = n div 2 \<and> colVars g = n - rowVars g
     \<and> rows g = 2 ^ nat (rowVars g) \<and> cols g = 2 ^ nat (colVars g)
     \<and> rowVars g + colVars g = n \<and> rows g * cols g = 2 ^ nat n
     \<and> allVars g = take (nat n) [''A'', ''B'', ''C'', ''D'', ''E'', ''F'']
     \<and> rowLabelsVars g = take (nat (rowVars g)) (allVars g)
     \<and> colLabelsVars g = drop (nat (rowVars g)) (allVars g)
     \<and> length (rowLabelsVars g) = nat (rowVars g)
     \<and> length (colLabelsVars g) = nat (colVars g)
     \<and> map (\<lambda>r. map minterm (snd r)) (gridRows g)
         = map (\<lambda>rg. map (\<lambda>cg. rg * 2 ^ nat (colVars g) + cg) (colGray g)) (rowGray g)"
proof -
  from KMapGrid_Some [OF assms, of ms dcs st imps] obtain g
    where g: "KMapGrid n ms dcs st imps = Some g"
      and rv: "rowVars g = n div 2" and cv: "colVars g = n - n div 2"
      and rg: "rowGray g = graySequence (n div 2)"
      and cg: "colGray g = graySequence (n - n div 2)"
      and cells: "map snd (gridRows g) =
                map (\<lambda>rg. map (\<lambda>cg. gridCell n (n - n div 2) ms dcs st imps rg cg)
                            (graySequence (n - n div 2)))
                  (graySequence (n div 2))"
    by blast
  have b: "0 \<le> n div 2" "n div 2 \<le> 30" "0 \<le> n - n div 2" "n - n div 2 \<le> 30"
    using assms by auto
  have rows_eq: "rows g = 2 ^ nat (rowVars g)" and cols_eq: "cols g = 2 ^ nat (colVars g)"
    using b by (simp_all add: KMapGrid_fields [OF g] js_shl_one rv cv)
  have rv': "rowVars g = n div 2" by (rule rv)
  have cv': "colVars g = n - rowVars g" by (simp add: rv cv)
  have sum: "rowVars g + colVars g = n" by (simp add: rv cv)
  have "nat (n div 2) + nat (n - n div 2) = nat n"
    using b by linarith
  then have prod: "rows g * cols g = 2 ^ nat n"
    by (simp add: rows_eq cols_eq rv cv power_add [symmetric])
  have vars: "allVars g = take (nat n) [''A'', ''B'', ''C'', ''D'', ''E'', ''F'']"
    using assms by (simp add: KMapGrid_fields [OF g] slice_0)
  have rl: "rowLabelsVars g = take (nat (rowVars g)) (allVars g)"
    using b by (simp add: KMapGrid_fields(4) [OF g] slice_0 rv)
  have cl: "colLabelsVars g = drop (nat (rowVars g)) (allVars g)"
    using b by (simp add: KMapGrid_fields(5) [OF g] slice_from_nonneg rv)
  have lv: "length (allVars g) = nat n"
    using assms by (simp add: vars)
  have lrl: "length (rowLabelsVars g) = nat (rowVars g)"
    using assms b by (simp add: rl lv rv)
  have lcl: "length (colLabelsVars g) = nat (colVars g)"
    using assms b by (simp add: cl lv rv cv)
  have "map (\<lambda>r. map minterm (snd r)) (gridRows g) = map (map minterm) (map snd (gridRows g))"
    by simp
  also have "\<dots> = map (\<lambda>rg. map (\<lambda>cg. js_or (js_shl rg (n - n div 2)) cg)
                              (graySequence (n - n div 2))) (graySequence (n div 2))"
    unfolding cells by (simp add: o_def)
  also have "\<dots> = map (\<lambda>rg. map (\<lambda>cg. rg * 2 ^ nat (n - n div 2) + cg)
                              (graySequence (n - n div 2))) (graySequence (n div 2))"
    by (rule map_cong [OF refl], rule map_cong [OF refl], rule minterm_high_low [OF assms])
  finally have layout: "map (\<lambda>r. map minterm (snd r)) (gridRows g)
         = map (\<lambda>rg. map (\<lambda>cg. rg * 2 ^ nat (colVars g) + cg) (colGray g)) (rowGray g)"
    by (simp only: cv rg cg)
  show ?thesis
    by (intro exI [of _ g] conjI) (fact g rv' cv' rows_eq cols_eq sum prod vars rl cl lrl lcl layout)+
qed

theorem axis_partition_witness:
  "(2::int) \<le> 5 \<and> (5::int) \<le> 6
   \<and> rowVars (the (KMapGrid 5 [1] [2] (\<lambda>r. \<lparr>bits = ''-----'', covered = [1]\<rparr>) [0])) = 2
   \<and> colVars (the (KMapGrid 5 [1] [2] (\<lambda>r. \<lparr>bits = ''-----'', covered = [1]\<rparr>) [0])) = 3
   \<and> rows (the (KMapGrid 5 [1] [2] (\<lambda>r. \<lparr>bits = ''-----'', covered = [1]\<rparr>) [0])) = 4
   \<and> cols (the (KMapGrid 5 [1] [2] (\<lambda>r. \<lparr>bits = ''-----'', covered = [1]\<rparr>) [0])) = 8
   \<and> rowLabelsVars (the (KMapGrid 5 [1] [2] (\<lambda>r. \<lparr>bits = ''-----'', covered = [1]\<rparr>) [0]))
        = [''A'', ''B'']
   \<and> colLabelsVars (the (KMapGrid 5 [1] [2] (\<lambda>r. \<lparr>bits = ''-----'', covered = [1]\<rparr>) [0]))
        = [''C'', ''D'', ''E'']"
proof -
  let ?st = "\<lambda>r::ref. \<lparr>bits = ''-----'', covered = [1]\<rparr>"
  have h: "(2::int) \<le> 5" "(5::int) \<le> 6" by simp_all
  from axis_partition [OF h, of "[1]" "[2]" ?st "[0]"]
  obtain g where g: "KMapGrid 5 [1] [2] ?st [0] = Some g"
    and p: "rowVars g = 5 div 2" "colVars g = 5 - rowVars g"
      "rows g = 2 ^ nat (rowVars g)" "cols g = 2 ^ nat (colVars g)"
      "allVars g = take (nat 5) [''A'', ''B'', ''C'', ''D'', ''E'', ''F'']"
      "rowLabelsVars g = take (nat (rowVars g)) (allVars g)"
      "colLabelsVars g = drop (nat (rowVars g)) (allVars g)"
    by blast
  have rv: "rowVars g = 2" using p(1) by simp
  have cv: "colVars g = 3" using p(2) rv by simp
  have "rows g = 4" using p(3) by (simp add: rv)
  moreover have "cols g = 8" using p(4) by (simp add: cv)
  moreover have av: "allVars g = [''A'', ''B'', ''C'', ''D'', ''E'']"
    using p(5) by (simp add: numeral_eq_Suc)
  moreover have "rowLabelsVars g = [''A'', ''B'']"
    using p(6) by (simp add: rv av numeral_eq_Suc)
  moreover have "colLabelsVars g = [''C'', ''D'', ''E'']"
    using p(7) by (simp add: rv av numeral_eq_Suc)
  ultimately show ?thesis
    using h rv cv by (simp only: g option.sel simp_thms)
qed

section \<open>Bit strings\<close>

lemma padStart_replicate: "padStart s width c = replicate (nat width - length s) c @ s"
  by (simp add: padStart_def)

lemma msb_first_Suc:
  "map (\<lambda>i. if bit (x::nat) (Suc w - Suc i) then CHR ''1'' else CHR ''0'') [0..<Suc w]
     = map (\<lambda>i. if bit (x div 2) (w - Suc i) then CHR ''1'' else CHR ''0'') [0..<w]
       @ [if odd x then CHR ''1'' else CHR ''0'']"
proof -
  have "bit x (Suc w - Suc i) = bit (x div 2) (w - Suc i)" if "i < w" for i
  proof -
    from that have "Suc w - Suc i = Suc (w - Suc i)" by simp
    then show ?thesis by (simp only: bit_Suc)
  qed
  then have "map (\<lambda>i. if bit x (Suc w - Suc i) then CHR ''1'' else CHR ''0'') [0..<w]
     = map (\<lambda>i. if bit (x div 2) (w - Suc i) then CHR ''1'' else CHR ''0'') [0..<w]"
    by (intro map_cong refl) simp
  then show ?thesis
    by (simp add: bit_0)
qed

lemma toBinary_padded:
  assumes "x < 2 ^ Suc w"
  shows "replicate (Suc w - length (toBinary x)) (CHR ''0'') @ toBinary x
     = map (\<lambda>i. if bit x (Suc w - Suc i) then CHR ''1'' else CHR ''0'') [0..<Suc w]"
  using assms
proof (induction w arbitrary: x)
  case 0
  then have "x = 0 \<or> x = 1" by auto
  then show ?case
    by (auto simp add: toBinary.simps [of x] binDigit_def bit_0)
next
  case (Suc w)
  show ?case
  proof (cases "x < 2")
    case True
    then have "x div 2 = 0" by simp
    then have "map (\<lambda>i. if bit (x div 2) (Suc w - Suc i) then CHR ''1'' else CHR ''0'') [0..<Suc w]
       = map (\<lambda>i. CHR ''0'') [0..<Suc w]"
      by simp
    also have "\<dots> = replicate (Suc w) (CHR ''0'')"
      using map_replicate_const [of "CHR ''0''" "[0..<Suc w]"] by simp
    finally have "map (\<lambda>i. if bit (x div 2) (Suc w - Suc i) then CHR ''1'' else CHR ''0'') [0..<Suc w]
       = replicate (Suc w) (CHR ''0'')" .
    moreover have "binDigit x = (if odd x then CHR ''1'' else CHR ''0'')"
      using True by (cases "x = 0") (auto simp add: binDigit_def)
    ultimately show ?thesis
      using True by (simp only: msb_first_Suc [of x "Suc w"]) (simp add: toBinary.simps [of x])
  next
    case False
    from Suc.prems have "x div 2 < 2 ^ Suc w" by simp
    from Suc.IH [OF this]
    have ih: "replicate (Suc w - length (toBinary (x div 2))) (CHR ''0'') @ toBinary (x div 2)
       = map (\<lambda>i. if bit (x div 2) (Suc w - Suc i) then CHR ''1'' else CHR ''0'') [0..<Suc w]" .
    have d: "binDigit (x mod 2) = (if odd x then CHR ''1'' else CHR ''0'')"
      by (auto simp add: binDigit_def odd_iff_mod_2_eq_one)
    have "replicate (Suc (Suc w) - length (toBinary x)) (CHR ''0'') @ toBinary x
        = (replicate (Suc w - length (toBinary (x div 2))) (CHR ''0'') @ toBinary (x div 2))
          @ [binDigit (x mod 2)]"
      using False by (simp add: toBinary.simps [of x])
    then show ?thesis
      by (simp only: ih d msb_first_Suc [of x "Suc w"])
  qed
qed

text \<open>
  Claim C9. For a width \<open>n \<ge> 1\<close> (every variable count and every axis width of a
  grid) and an index \<open>m\<close> with \<open>0 \<le> m < 2 ^ n\<close>, \<open>toBitsString m n\<close> has exactly \<open>n\<close>
  characters, and its character at position \<open>i\<close> is the bit \<open>n - 1 - i\<close> of \<open>m\<close>: the
  binary representation of \<open>m\<close>, padded with zeros to the width \<open>n\<close>, most significant
  bit first.
\<close>

theorem toBitsString_binary:
  assumes "1 \<le> n" "0 \<le> m" "m < 2 ^ nat n"
  shows "length (toBitsString m n) = nat n
       \<and> (\<forall>i < nat n. toBitsString m n ! i
                         = (if bit m (nat n - 1 - i) then CHR ''1'' else CHR ''0''))"
proof -
  from assms(1) obtain w where w: "nat n = Suc w"
    by (cases "nat n") auto
  from assms(2,3) have "nat m < 2 ^ Suc w"
    by (simp add: w nat_less_iff)
  from toBinary_padded [OF this]
  have "toBitsString m n
      = map (\<lambda>i. if bit (nat m) (Suc w - Suc i) then CHR ''1'' else CHR ''0'') [0..<Suc w]"
    using assms(2) by (simp add: toBitsString_def padStart_replicate toString2_def w)
  also have "\<dots> = map (\<lambda>i. if bit m (nat n - 1 - i) then CHR ''1'' else CHR ''0'') [0..<nat n]"
    using assms(2) by (simp add: w bit_nat_iff)
  finally show ?thesis by simp
qed

theorem toBitsString_binary_witness:
  "(1::int) \<le> 4 \<and> (0::int) \<le> 5 \<and> (5::int) < 2 ^ nat 4
   \<and> length (toBitsString 5 4) = 4
   \<and> toBitsString 5 4 ! 0 = CHR ''0'' \<and> toBitsString 5 4 ! 1 = CHR ''1''
   \<and> toBitsString 5 4 ! 2 = CHR ''0'' \<and> toBitsString 5 4 ! 3 = CHR ''1''"
proof -
  have h: "(1::int) \<le> 4" "(0::int) \<le> 5" "(5::int) < 2 ^ nat 4" by simp_all
  from toBitsString_binary [OF h]
  have len: "length (toBitsString 5 4) = nat 4"
    and at: "\<And>i. i < nat 4 \<Longrightarrow> toBitsString 5 4 ! i
                         = (if bit (5::int) (nat 4 - 1 - i) then CHR ''1'' else CHR ''0'')"
    by blast+
  have "toBitsString 5 4 ! 0 = CHR ''0''" using at [of 0] by (simp add: bit_numeral_simps)
  moreover have "toBitsString 5 4 ! 1 = CHR ''1''" using at [of 1] by (simp add: bit_numeral_simps)
  moreover have "toBitsString 5 4 ! 2 = CHR ''0''" using at [of 2] by (simp add: bit_numeral_simps)
  moreover have "toBitsString 5 4 ! 3 = CHR ''1''" using at [of 3] by (simp add: bit_numeral_simps)
  ultimately show ?thesis using h len by simp
qed

section \<open>Implicants that are not well formed\<close>

lemma gridCell_store_cong:
  assumes "\<And>r. r \<in> set imps \<Longrightarrow>
     includes_js (covered (st r)) (js_or (js_shl rg cv) cg)
       = includes_js (covered (st' r)) (js_or (js_shl rg cv) cg)"
  shows "gridCell n cv ms dcs st imps rg cg = gridCell n cv ms dcs st' imps rg cg"
proof -
  have "filter (\<lambda>imp. includes_js (covered (st imp)) (js_or (js_shl rg cv) cg)) imps
      = filter (\<lambda>imp. includes_js (covered (st' imp)) (js_or (js_shl rg cv) cg)) imps"
    using assms by (intro filter_cong refl)
  then show ?thesis
    by (simp add: gridCell_def Let_def)
qed

lemma KMapGrid_store_cong:
  assumes "\<And>rg cg. rg \<in> set (graySequence (n div 2)) \<Longrightarrow> cg \<in> set (graySequence (n - n div 2)) \<Longrightarrow>
     gridCell n (n - n div 2) ms dcs st imps rg cg = gridCell n (n - n div 2) ms dcs st' imps rg cg"
  shows "KMapGrid n ms dcs st imps = KMapGrid n ms dcs st' imps"
proof -
  have "map (\<lambda>rg. (toBitsString rg (n div 2),
                   map (\<lambda>cg. gridCell n (n - n div 2) ms dcs st imps rg cg) (graySequence (n - n div 2))))
          (graySequence (n div 2))
      = map (\<lambda>rg. (toBitsString rg (n div 2),
                   map (\<lambda>cg. gridCell n (n - n div 2) ms dcs st' imps rg cg) (graySequence (n - n div 2))))
          (graySequence (n div 2))"
    using assms by (intro map_cong refl) simp
  then show ?thesis
    by (simp add: KMapGrid_def Let_def)
qed

lemma minterm_in_range:
  assumes "2 \<le> n" "n \<le> 6"
    and "rg \<in> set (graySequence (n div 2))" "cg \<in> set (graySequence (n - n div 2))"
  shows "0 \<le> js_or (js_shl rg (n - n div 2)) cg" "js_or (js_shl rg (n - n div 2)) cg < 2 ^ nat n"
proof -
  from assms(3,4) have "js_or (js_shl rg (n - n div 2)) cg
      \<in> set (concat (map (\<lambda>rg. map (\<lambda>cg. js_or (js_shl rg (n - n div 2)) cg)
                            (graySequence (n - n div 2)))
                  (graySequence (n div 2))))"
    by auto
  with grid_minterms(3) [OF assms(1,2)]
  show "0 \<le> js_or (js_shl rg (n - n div 2)) cg" "js_or (js_shl rg (n - n div 2)) cg < 2 ^ nat n"
    by blast+
qed

text \<open>
  Claim C5, as the code behaves. The grid code validates nothing about the implicants
  and has no error to raise. For every variable count in \<open>[2, 6]\<close> and every list of
  implicants it returns a grid. Every cell has its minterm index in \<open>[0, 2 ^ n)\<close>, so a
  \<open>covered\<close> entry outside that range matches no cell and is ignored, and the length of
  the pattern (\<open>bits\<close>) is never checked: the axis split, the labels and the cells
  (index, value, covering implicants, first group index, ring class, bit string) are
  those of the implicants with the entries out of range removed and with any other
  patterns \<open>pat\<close>.
\<close>

theorem malformed_implicants_accepted:
  assumes "2 \<le> n" "n \<le> 6"
  shows "\<exists>g. KMapGrid n ms dcs st imps = Some g
     \<and> (\<forall>c \<in> set (allCells g). 0 \<le> minterm c \<and> minterm c < 2 ^ nat n)
     \<and> (\<forall>c \<in> set (allCells g).
           coveringGroups c
             = filter (\<lambda>r. minterm c \<in> set (filter (\<lambda>x. 0 \<le> x \<and> x < 2 ^ nat n) (covered (st r))))
                 imps)
     \<and> KMapGrid n ms dcs
           (\<lambda>r. \<lparr>bits = pat r, covered = filter (\<lambda>x. 0 \<le> x \<and> x < 2 ^ nat n) (covered (st r))\<rparr>)
           imps
         = Some g"
proof -
  from KMapGrid_Some [OF assms] obtain g where g: "KMapGrid n ms dcs st imps = Some g"
    by blast
  have range: "0 \<le> minterm c \<and> minterm c < 2 ^ nat n" if "c \<in> set (allCells g)" for c
  proof -
    from in_allCells [OF g that] obtain rg cg
      where "rg \<in> set (graySequence (n div 2))" "cg \<in> set (graySequence (n - n div 2))"
        "c = gridCell n (n - n div 2) ms dcs st imps rg cg" by blast
    then show ?thesis
      using minterm_in_range [OF assms, of rg cg] by simp
  qed
  have cov: "coveringGroups c
      = filter (\<lambda>r. minterm c \<in> set (filter (\<lambda>x. 0 \<le> x \<and> x < 2 ^ nat n) (covered (st r)))) imps"
    if "c \<in> set (allCells g)" for c
  proof -
    from in_allCells [OF g that] obtain rg cg
      where "c = gridCell n (n - n div 2) ms dcs st imps rg cg" by blast
    then have "coveringGroups c = filter (\<lambda>r. minterm c \<in> set (covered (st r))) imps"
      by (simp add: includes_js_def)
    with range [OF that] show ?thesis by simp
  qed
  let ?st' = "\<lambda>r. \<lparr>bits = pat r, covered = filter (\<lambda>x. 0 \<le> x \<and> x < 2 ^ nat n) (covered (st r))\<rparr>"
  have "KMapGrid n ms dcs st imps = KMapGrid n ms dcs ?st' imps"
  proof (rule KMapGrid_store_cong, rule gridCell_store_cong)
    fix rg cg r
    assume "rg \<in> set (graySequence (n div 2))" "cg \<in> set (graySequence (n - n div 2))"
    then show "includes_js (covered (st r)) (js_or (js_shl rg (n - n div 2)) cg)
       = includes_js (covered (?st' r)) (js_or (js_shl rg (n - n div 2)) cg)"
      using minterm_in_range [OF assms, of rg cg] by (simp add: includes_js_def)
  qed
  with g range cov show ?thesis by simp
qed

theorem malformed_implicants_accepted_witness:
  "(2::int) \<le> 2 \<and> (2::int) \<le> 6
   \<and> KMapGrid 2 [0] [] ((!) [\<lparr>bits = ''0'', covered = [0, 99, - 1]\<rparr>]) [0]
       = KMapGrid 2 [0] [] (\<lambda>r. \<lparr>bits = ''00'', covered = [0]\<rparr>) [0]
   \<and> KMapGrid 2 [0] [] (\<lambda>r. \<lparr>bits = ''00'', covered = [0]\<rparr>) [0] \<noteq> None"
proof -
  have h: "(2::int) \<le> 2" "(2::int) \<le> 6" by simp_all
  let ?st = "(!) [\<lparr>bits = ''0'', covered = [0, 99, - 1]\<rparr>]"
  from malformed_implicants_accepted [OF h, of "[0]" "[]" ?st "[0]" "\<lambda>r. ''00''"]
  obtain g where g: "KMapGrid 2 [0] [] ?st [0] = Some g"
    and g': "KMapGrid 2 [0] []
           (\<lambda>r. \<lparr>bits = ''00'', covered = filter (\<lambda>x. 0 \<le> x \<and> x < 2 ^ nat 2) (covered (?st r))\<rparr>)
           [0] = Some g"
    by blast
  have "KMapGrid 2 [0] []
           (\<lambda>r. \<lparr>bits = ''00'', covered = filter (\<lambda>x. 0 \<le> x \<and> x < 2 ^ nat 2) (covered (?st r))\<rparr>) [0]
        = KMapGrid 2 [0] [] (\<lambda>r. \<lparr>bits = ''00'', covered = [0]\<rparr>) [0]"
  proof (rule KMapGrid_store_cong, rule gridCell_store_cong)
    fix r :: ref assume "r \<in> set [0]"
    then have "r = 0" by simp
    then show "includes_js (covered \<lparr>bits = ''00'', covered = filter (\<lambda>x. 0 \<le> x \<and> x < 2 ^ nat 2) (covered (?st r))\<rparr>) m
       = includes_js (covered \<lparr>bits = ''00'', covered = [0]\<rparr>) m" for m
      by simp
  qed
  with g' have "KMapGrid 2 [0] [] (\<lambda>r. \<lparr>bits = ''00'', covered = [0]\<rparr>) [0] = Some g"
    by (simp only:)
  with g h show ?thesis by (simp only: option.distinct simp_thms)
qed

text \<open>
  C5 as stated asks for a structural error. With two variables and one implicant whose
  \<open>covered\<close> list is \<open>[0, 99]\<close>, the component returns a grid: the cell of minterm
  \<open>0\<close> is covered by the implicant, no other cell is, and the entry \<open>99\<close> has no effect.
\<close>

theorem out_of_range_covered_counterexample:
  "KMapGrid 2 [0] [] ((!) [\<lparr>bits = ''00'', covered = [0, 99]\<rparr>]) [0] \<noteq> None
   \<and> map coveringGroups
        (allCells (the (KMapGrid 2 [0] [] ((!) [\<lparr>bits = ''00'', covered = [0, 99]\<rparr>]) [0])))
       = [[0], [], [], []]"
  by (simp add: KMapGrid_def Let_def allCells_def graySequence_1 gridCell_def
      js_or_def js_shl_def toInt32_def shiftCount_def includes_js_def)

end
